theory Spec2Isabelle
  imports Main
begin

section \<open>Commuting operation queues (commutator.go)\<close>

text \<open>
  The Go source declares an interface \<open>Commuter\<close> (methods \<open>COp\<close>, \<open>Push\<close>, \<open>Pop\<close>,
  \<open>EmptyQueue\<close>, \<open>GetQueueLength\<close>), a function type \<open>Commutator\<close>, the struct
  \<open>CommuterWithCommutator\<close> and the orchestration functions built on the interface.
  Operands are Go's \<open>interface{}\<close>; here they are values of a type parameter \<open>'a\<close>.

  All integers of the source are Go's \<open>int\<close>. They are modelled as \<open>int\<close>: the only
  arithmetic is a comparison with a queue length, a loop counter running up to a bound, one
  division of a non-negative length, and the slice bounds \<open>i*s\<close> and \<open>(i+1)*s\<close>, which
  are checked against the length of the slice before they can leave the 64-bit range.
\<close>

subsection \<open>Data model\<close>

text \<open>
  The argument handed to \<open>COp\<close>: one operand, or a whole \<open>[]interface{}\<close> (the call
  \<open>c.COp(q)\<close> in \<open>CollapseQueue\<close> passes the slice itself).
\<close>

datatype 'a cop_arg = Operand 'a | Batch "'a list"

text \<open>
  A commuter: its queue, oldest operand first, and the sequence of \<open>COp\<close> calls made on
  it so far. What \<open>COp\<close> does to the domain state belongs to the implementer of the
  interface; the orchestration code only decides which calls are made, and that is what the
  field \<open>applied\<close> records.
\<close>

record 'a commuter =
  queue :: "'a list"
  applied :: "'a cop_arg list"

type_synonym 'a Commutator = "'a \<Rightarrow> 'a \<Rightarrow> 'a"

record 'a CommuterWithCommutator =
  Commuter :: "'a commuter"
  Commutator :: "'a Commutator"

text \<open>Run-time panics of the Go code.\<close>

datatype panic =
  EmptyQueueError
  | IntegerDivideByZero
  | NilPointerDereference
  | SliceBoundsOutOfRange

subsection \<open>The interface methods\<close>

text \<open>
  Modelled from the spec: the interface \<open>Commuter\<close> declares these five methods, and no
  implementation of them is in the source. The spec (sections 3 and 4.1) fixes them:
  \<open>Push\<close> appends to the tail, \<open>Pop\<close> removes and returns the oldest operand and fails
  on an empty queue, \<open>EmptyQueue\<close> detaches and returns the whole contents and leaves the
  queue empty, \<open>GetQueueLength\<close> is the current count, and \<open>COp\<close> applies the domain
  operation once.
\<close>

definition COp :: "'a cop_arg \<Rightarrow> 'a commuter \<Rightarrow> 'a commuter" where
  "COp a c = c\<lparr>applied := applied c @ [a]\<rparr>"

definition Push :: "'a \<Rightarrow> 'a commuter \<Rightarrow> 'a commuter" where
  "Push i c = c\<lparr>queue := queue c @ [i]\<rparr>"

definition Pop :: "'a commuter \<Rightarrow> panic \<times> 'a commuter + 'a \<times> 'a commuter" where
  "Pop c = (case queue c of
              [] \<Rightarrow> Inl (EmptyQueueError, c)
            | i # q \<Rightarrow> Inr (i, c\<lparr>queue := q\<rparr>))"

definition EmptyQueue :: "'a commuter \<Rightarrow> 'a list \<times> 'a commuter" where
  "EmptyQueue c = (queue c, c\<lparr>queue := []\<rparr>)"

definition GetQueueLength :: "'a commuter \<Rightarrow> int" where
  "GetQueueLength c = int (length (queue c))"

text \<open>
  Modelled from the spec: the source calls three methods that the interface does not
  declare. \<open>Enqueue\<close> (called by \<open>AggregateOp\<close>) is \<open>Push\<close> under another name (spec,
  section 2: operands are pushed by \<open>AggregateOp\<close>/\<open>Push\<close>); \<open>QueueLength\<close> is
  \<open>GetQueueLength\<close>; \<open>Queue\<close> (called by \<open>PCollapseQueue\<close>) detaches the current
  contents as \<open>EmptyQueue\<close> does (spec, section 4.3, step 1).
\<close>

definition Enqueue :: "'a \<Rightarrow> 'a commuter \<Rightarrow> 'a commuter" where
  "Enqueue i c = Push i c"

definition QueueLength :: "'a commuter \<Rightarrow> int" where
  "QueueLength c = GetQueueLength c"

definition Queue :: "'a commuter \<Rightarrow> 'a list \<times> 'a commuter" where
  "Queue c = EmptyQueue c"

subsection \<open>Go primitives\<close>

text \<open>Go's \<open>/\<close> on \<open>int\<close>: it panics on a zero divisor and truncates towards zero.\<close>

definition go_quo :: "int \<Rightarrow> int \<Rightarrow> panic + int" where
  "go_quo a b =
     (if b = 0 then Inl IntegerDivideByZero
      else Inr (sgn a * sgn b * (\<bar>a\<bar> div \<bar>b\<bar>)))"

text \<open>
  Go's slice expression \<open>q[lo:hi]\<close>: it panics unless \<open>0 \<le> lo \<le> hi \<le> cap(q)\<close>. The
  capacity of the slice that \<open>Queue\<close> returns is taken to be its length.
\<close>

definition go_slice :: "'a list \<Rightarrow> int \<Rightarrow> int \<Rightarrow> panic + 'a list" where
  "go_slice q lo hi =
     (if 0 \<le> lo \<and> lo \<le> hi \<and> hi \<le> int (length q)
      then Inr (take (nat (hi - lo)) (drop (nat lo) q))
      else Inl SliceBoundsOutOfRange)"

subsection \<open>CommuterWithCommutator.CompressQueue\<close>

text \<open>
  The body of the loop of \<open>CompressQueue\<close>:
  \<^verbatim>\<open>i1 := c.Commuter.Pop(); i2 := c.Commuter.Pop(); c.Push(c.Commutator(i1, i2))\<close>.
  A panic leaves the state as it is at that moment: when the second \<open>Pop\<close> fails, the
  first operand has already left the queue.
\<close>

definition compress_round ::
  "'a CommuterWithCommutator \<Rightarrow>
     panic \<times> 'a CommuterWithCommutator + 'a CommuterWithCommutator" where
  "compress_round c =
     (case Pop (Commuter c) of
        Inl (e, c1) \<Rightarrow> Inl (e, c\<lparr>Commuter := c1\<rparr>)
      | Inr (i1, c1) \<Rightarrow>
          (case Pop c1 of
             Inl (e, c2) \<Rightarrow> Inl (e, c\<lparr>Commuter := c2\<rparr>)
           | Inr (i2, c2) \<Rightarrow> Inr (c\<lparr>Commuter := Push (Commutator c i1 i2) c2\<rparr>)))"

text \<open>\<^verbatim>\<open>for i := 0; i < numOps; i++ { ... }\<close>, from the value \<open>i\<close> of the counter.\<close>

function compress_loop ::
  "int \<Rightarrow> int \<Rightarrow> 'a CommuterWithCommutator \<Rightarrow>
     panic \<times> 'a CommuterWithCommutator + 'a CommuterWithCommutator" where
  "compress_loop numOps i c =
     (if i < numOps
      then (case compress_round c of
              Inl e \<Rightarrow> Inl e
            | Inr c' \<Rightarrow> compress_loop numOps (i + 1) c')
      else Inr c)"
  by pat_completeness auto
termination
  by (relation "measure (\<lambda>(numOps, i, c). nat (numOps - i))") auto

declare compress_loop.simps [simp del]

definition CommuterWithCommutator_CompressQueue ::
  "int \<Rightarrow> 'a CommuterWithCommutator \<Rightarrow>
     panic \<times> 'a CommuterWithCommutator + 'a CommuterWithCommutator" where
  "CommuterWithCommutator_CompressQueue numOps c = compress_loop numOps 0 c"

subsection \<open>Sequential drain\<close>

text \<open>\<open>Dequeue\<close>: \<^verbatim>\<open>c.COp(c.Pop())\<close>.\<close>

definition Dequeue :: "'a commuter \<Rightarrow> panic \<times> 'a commuter + 'a commuter" where
  "Dequeue c =
     (case Pop c of
        Inl e \<Rightarrow> Inl e
      | Inr (i, c') \<Rightarrow> Inr (COp (Operand i) c'))"

text \<open>\<open>AggregateOp\<close>: \<^verbatim>\<open>c.Enqueue(i)\<close>.\<close>

definition AggregateOp :: "'a \<Rightarrow> 'a commuter \<Rightarrow> 'a commuter" where
  "AggregateOp i c = Enqueue i c"

text \<open>
  \<open>CollapseQueue\<close>: \<^verbatim>\<open>q := c.EmptyQueue(); for _, i := range q { c.COp(q) }\<close>. The
  loop runs once for each element of \<open>q\<close>, and each iteration passes \<open>q\<close> itself.
\<close>

definition CollapseQueue :: "'a commuter \<Rightarrow> 'a commuter" where
  "CollapseQueue c =
     (let (q, c') = EmptyQueue c
      in fold (\<lambda>i. COp (Batch q)) q c')"

text \<open>
  \<open>CompressQueue\<close> of a \<open>Commuter\<close>:
  \<^verbatim>\<open>for c.QueueLength() > desiredLength { c.Dequeue() }\<close>. The source holds this
  function twice, with the same body. Every iteration that returns shortens the queue, so
  the loop ends.
\<close>

function CompressQueue :: "int \<Rightarrow> 'a commuter \<Rightarrow> panic \<times> 'a commuter + 'a commuter" where
  "CompressQueue desiredLength c =
     (if QueueLength c > desiredLength
      then (case Dequeue c of
              Inl e \<Rightarrow> Inl e
            | Inr c' \<Rightarrow> CompressQueue desiredLength c')
      else Inr c)"
  by pat_completeness auto
termination
  by (relation "measure (\<lambda>(desiredLength, c). length (queue c))")
     (auto simp: Dequeue_def Pop_def COp_def split: list.splits)

declare CompressQueue.simps [simp del]

subsection \<open>Concurrent drain\<close>

text \<open>
  The body of a worker goroutine of \<open>PCollapseQueue\<close>:
  \<^verbatim>\<open>for _, i := range is { c.COp(i) }\<close>.
\<close>

definition worker :: "'a list \<Rightarrow> 'a commuter \<Rightarrow> 'a commuter" where
  "worker is c = fold (\<lambda>i. COp (Operand i)) is c"

text \<open>
  The loop of \<open>PCollapseQueue\<close> that starts the goroutines:
  \<^verbatim>\<open>for i := 0; i < s; i++ { go func(...){...}(q[i*s : (i+1)*s]) }\<close>.
  The slice expression is evaluated by the caller, so its panic is the caller's. The result
  is the list of slices handed to goroutines, in the order they were started.
\<close>

function spawn_workers ::
  "int \<Rightarrow> 'a list \<Rightarrow> int \<Rightarrow> 'a list list \<Rightarrow> panic \<times> 'a list list + 'a list list" where
  "spawn_workers s q i ws =
     (if i < s
      then (case go_slice q (i * s) ((i + 1) * s) of
              Inl e \<Rightarrow> Inl (e, ws)
            | Inr is \<Rightarrow> spawn_workers s q (i + 1) (ws @ [is]))
      else Inr ws)"
  by pat_completeness auto
termination
  by (relation "measure (\<lambda>(s, q, i, ws). nat (s - i))") auto

declare spawn_workers.simps [simp del]

text \<open>
  \<open>PCollapseQueue\<close>. The source holds it twice: the first copy starts the goroutines and
  returns, the second also waits for them on a \<open>sync.WaitGroup\<close>. Both compute the same
  slices, which is what the model returns, with the commuter as the caller leaves it. The
  \<open>COp\<close> calls of the goroutines are those of \<open>worker\<close> on each slice.
\<close>

definition PCollapseQueue ::
  "int \<Rightarrow> 'a commuter \<Rightarrow>
     panic \<times> 'a commuter \<times> 'a list list + 'a commuter \<times> 'a list list" where
  "PCollapseQueue numWorkers c =
     (let l = GetQueueLength c
      in case go_quo l numWorkers of
           Inl e \<Rightarrow> Inl (e, c, [])
         | Inr s \<Rightarrow>
             (let (q, c') = Queue c
              in case spawn_workers s q 0 [] of
                   Inl (e, ws) \<Rightarrow> Inl (e, c', ws)
                 | Inr ws \<Rightarrow> Inr (c', ws)))"

text \<open>
  The operands to which the goroutines apply \<open>COp\<close>, all workers together, and the state
  once every worker has run (the workers taken one after the other, in the order they were
  started: one of the schedules the Go runtime may choose).
\<close>

definition worker_operands :: "'a list list \<Rightarrow> 'a list" where
  "worker_operands ws = concat ws"

definition run_workers :: "'a list list \<Rightarrow> 'a commuter \<Rightarrow> 'a commuter" where
  "run_workers ws c = fold worker ws c"

text \<open>
  \<open>CCompressQueue\<close>:
  \<^verbatim>\<open>numOps := c.QueueLength() - desiredLength; var j *int; *j = 0; for i := 0; i < numWorkers; i++ { go func(j *int) { for *j < numOps { c.Dequeue(); *j++ } }(j) }\<close>.
  The pointer \<open>j\<close> is declared and never set, so it is nil (\<open>None\<close>; \<open>Some v\<close> would
  be a cell that holds \<open>v\<close>), and the store \<open>*j = 0\<close> goes through it. A store
  through a pointer panics on nil, and otherwise gives the cell its new content.
\<close>

definition go_store :: "int option \<Rightarrow> int \<Rightarrow> panic + int" where
  "go_store p v = (case p of None \<Rightarrow> Inl NilPointerDereference | Some _ \<Rightarrow> Inr v)"

text \<open>The body of a goroutine of \<open>CCompressQueue\<close>, from the value \<open>j\<close> of the counter.\<close>

function ccompress_worker ::
  "int \<Rightarrow> int \<Rightarrow> 'a commuter \<Rightarrow> panic \<times> 'a commuter + int \<times> 'a commuter" where
  "ccompress_worker numOps j c =
     (if j < numOps
      then (case Dequeue c of
              Inl e \<Rightarrow> Inl e
            | Inr c' \<Rightarrow> ccompress_worker numOps (j + 1) c')
      else Inr (j, c))"
  by pat_completeness auto
termination
  by (relation "measure (\<lambda>(numOps, j, c). nat (numOps - j))") auto

declare ccompress_worker.simps [simp del]

text \<open>
  The loop that starts the goroutines, each run to its end before the next is started (one
  of the schedules the Go runtime may choose).
\<close>

function ccompress_spawn ::
  "int \<Rightarrow> int \<Rightarrow> int \<Rightarrow> int \<Rightarrow> 'a commuter \<Rightarrow> panic \<times> 'a commuter + 'a commuter" where
  "ccompress_spawn numWorkers numOps i j c =
     (if i < numWorkers
      then (case ccompress_worker numOps j c of
              Inl e \<Rightarrow> Inl e
            | Inr (j', c') \<Rightarrow> ccompress_spawn numWorkers numOps (i + 1) j' c')
      else Inr c)"
  by pat_completeness auto
termination
  by (relation "measure (\<lambda>(numWorkers, numOps, i, j, c). nat (numWorkers - i))") auto

declare ccompress_spawn.simps [simp del]

definition CCompressQueue ::
  "int \<Rightarrow> int \<Rightarrow> 'a commuter \<Rightarrow> panic \<times> 'a commuter + 'a commuter" where
  "CCompressQueue desiredLength numWorkers c =
     (let numOps = QueueLength c - desiredLength;
          j = None
      in case go_store j 0 of
           Inl e \<Rightarrow> Inl (e, c)
         | Inr v \<Rightarrow> ccompress_spawn numWorkers numOps 0 v c)"

section \<open>Facts about the model\<close>

subsection \<open>Sequential drain\<close>

lemma Dequeue_Cons:
  "queue c = i # q \<Longrightarrow> Dequeue c = Inr (c\<lparr>queue := q, applied := applied c @ [Operand i]\<rparr>)"
  by (simp add: Dequeue_def Pop_def COp_def)

text \<open>
  With a non-negative target the loop of \<open>CompressQueue\<close> dequeues the oldest operands,
  as many as the queue is longer than the target, and returns.
\<close>

lemma CompressQueue_drain:
  "0 \<le> d \<Longrightarrow>
   CompressQueue d c =
     Inr (c\<lparr>queue := drop (length (queue c) - nat d) (queue c),
            applied := applied c @ map Operand (take (length (queue c) - nat d) (queue c))\<rparr>)"
proof (induction d c rule: CompressQueue.induct)
  case (1 d c)
  show ?case
  proof (cases "QueueLength c > d")
    case False
    then have "length (queue c) - nat d = 0"
      using "1.prems" by (simp add: QueueLength_def GetQueueLength_def)
    with False show ?thesis
      by (simp add: CompressQueue.simps [of d c])
  next
    case True
    then have len: "nat d < length (queue c)"
      using "1.prems" by (simp add: QueueLength_def GetQueueLength_def)
    then obtain i q where q: "queue c = i # q"
      by (cases "queue c") auto
    let ?c' = "c\<lparr>queue := q, applied := applied c @ [Operand i]\<rparr>"
    have deq: "Dequeue c = Inr ?c'"
      using q by (rule Dequeue_Cons)
    have ih: "CompressQueue d ?c' =
        Inr (?c'\<lparr>queue := drop (length (queue ?c') - nat d) (queue ?c'),
                 applied := applied ?c' @ map Operand (take (length (queue ?c') - nat d) (queue ?c'))\<rparr>)"
      using "1.IH" [OF True deq "1.prems"] .
    have n: "length (queue c) - nat d = Suc (length q - nat d)"
      using len q by simp
    show ?thesis
      using True deq ih q n
      by (simp add: CompressQueue.simps [of d c])
  qed
qed

lemma fold_COp_const:
  "fold (\<lambda>i. COp a) xs c = c\<lparr>applied := applied c @ replicate (length xs) a\<rparr>"
  by (induction xs arbitrary: c) (simp_all add: COp_def replicate_app_Cons_same)

text \<open>
  \<open>CollapseQueue\<close> on any queue: one \<open>COp\<close> call for each operand of the backlog, each
  of them with the whole backlog as its argument.
\<close>

lemma CollapseQueue_general:
  "CollapseQueue c =
     c\<lparr>queue := [], applied := applied c @ replicate (length (queue c)) (Batch (queue c))\<rparr>"
  by (simp add: CollapseQueue_def EmptyQueue_def fold_COp_const)

subsection \<open>Compression by the commutator\<close>

lemma compress_round_two:
  "queue (Commuter c) = i1 # i2 # rest \<Longrightarrow>
   compress_round c =
     Inr (c\<lparr>Commuter := (Commuter c)\<lparr>queue := rest @ [Commutator c i1 i2]\<rparr>\<rparr>)"
  by (simp add: compress_round_def Pop_def Push_def)

text \<open>Running one more round is running the rounds so far and then the body once more.\<close>

lemma compress_loop_extend:
  "i \<le> n \<Longrightarrow>
   compress_loop (n + 1) i c =
     (case compress_loop n i c of Inl e \<Rightarrow> Inl e | Inr c' \<Rightarrow> compress_round c')"
proof (induction n i c rule: compress_loop.induct)
  case (1 n i c)
  show ?case
  proof (cases "i < n")
    case False
    with "1.prems" have "i = n" by simp
    then show ?thesis
      by (simp add: compress_loop.simps [of "n + 1" n c] compress_loop.simps [of n n c]
          compress_loop.simps [of "n + 1" "n + 1"] split: sum.splits)
  next
    case True
    show ?thesis
    proof (cases "compress_round c")
      case (Inl e)
      with True show ?thesis
        by (simp add: compress_loop.simps [of "n + 1" i c] compress_loop.simps [of n i c])
    next
      case (Inr c')
      with True "1.IH" [OF True Inr] show ?thesis
        by (simp add: compress_loop.simps [of "n + 1" i c] compress_loop.simps [of n i c])
    qed
  qed
qed

lemma compress_loop_length:
  "i \<le> n \<Longrightarrow> 2 * (n - i) \<le> int (length (queue (Commuter c))) \<Longrightarrow>
   \<exists>c'. compress_loop n i c = Inr c' \<and>
        int (length (queue (Commuter c'))) = int (length (queue (Commuter c))) - (n - i) \<and>
        applied (Commuter c') = applied (Commuter c) \<and>
        Commutator c' = Commutator c"
proof (induction n i c rule: compress_loop.induct)
  case (1 n i c)
  show ?case
  proof (cases "i < n")
    case False
    then have "compress_loop n i c = Inr c"
      by (subst compress_loop.simps) simp
    moreover have "n - i = 0"
      using False "1.prems" by simp
    ultimately show ?thesis by simp
  next
    case True
    with "1.prems" have "2 \<le> length (queue (Commuter c))" by simp
    then obtain i1 i2 rest where q: "queue (Commuter c) = i1 # i2 # rest"
      by (cases "queue (Commuter c)"; cases "tl (queue (Commuter c))") auto
    let ?c' = "c\<lparr>Commuter := (Commuter c)\<lparr>queue := rest @ [Commutator c i1 i2]\<rparr>\<rparr>"
    have r: "compress_round c = Inr ?c'"
      using q by (rule compress_round_two)
    have "i + 1 \<le> n" using True by simp
    moreover have "2 * (n - (i + 1)) \<le> int (length (queue (Commuter ?c')))"
      using "1.prems" q by simp
    ultimately obtain c'' where
      "compress_loop n (i + 1) ?c' = Inr c''"
      "int (length (queue (Commuter c''))) = int (length (queue (Commuter ?c'))) - (n - (i + 1))"
      "applied (Commuter c'') = applied (Commuter ?c')"
      "Commutator c'' = Commutator ?c'"
      using "1.IH" [OF True r] by blast
    then show ?thesis
      using True r q by (simp add: compress_loop.simps [of n i c])
  qed
qed

subsection \<open>The partition of the concurrent drain\<close>

lemma go_quo_pos:
  "0 \<le> a \<Longrightarrow> 0 < b \<Longrightarrow> go_quo a b = Inr (a div b)"
  by (cases "a = 0") (simp_all add: go_quo_def)

lemma go_quo_nonpos:
  "0 \<le> a \<Longrightarrow> b < 0 \<Longrightarrow> \<exists>s. go_quo a b = Inr s \<and> s \<le> 0"
  by (simp add: go_quo_def sgn_if pos_imp_zdiv_nonneg_iff)

lemma spawn_workers_slices:
  "0 \<le> i \<Longrightarrow> i \<le> s \<Longrightarrow> s * s \<le> int (length q) \<Longrightarrow>
   spawn_workers s q i ws =
     Inr (ws @ map (\<lambda>k. take (nat s) (drop (k * nat s) q)) [nat i..<nat s])"
proof (induction s q i ws rule: spawn_workers.induct)
  case (1 s q i ws)
  show ?case
  proof (cases "i < s")
    case False
    with "1.prems" have "i = s" by simp
    then show ?thesis
      by (subst spawn_workers.simps) simp
  next
    case True
    have "(i + 1) * s \<le> s * s"
      using True "1.prems" by (simp add: mult_right_mono)
    then have hi: "(i + 1) * s \<le> int (length q)"
      using "1.prems" by simp
    have lo: "0 \<le> i * s" "i * s \<le> (i + 1) * s"
      using True "1.prems" by (simp_all add: distrib_right)
    have width: "nat ((i + 1) * s - i * s) = nat s"
      by (simp add: distrib_right)
    have start: "nat (i * s) = nat i * nat s"
      using "1.prems" by (simp add: nat_mult_distrib)
    have sl: "go_slice q (i * s) ((i + 1) * s) = Inr (take (nat s) (drop (nat i * nat s) q))"
      using hi lo width start by (simp add: go_slice_def)
    have ih: "spawn_workers s q (i + 1) (ws @ [take (nat s) (drop (nat i * nat s) q)]) =
       Inr ((ws @ [take (nat s) (drop (nat i * nat s) q)]) @
            map (\<lambda>k. take (nat s) (drop (k * nat s) q)) [nat (i + 1)..<nat s])"
      using "1.IH" [OF True sl] True "1.prems" by simp
    have up: "[nat i..<nat s] = nat i # [nat (i + 1)..<nat s]"
      using True "1.prems" by (simp add: upt_conv_Cons nat_add_distrib)
    show ?thesis
      using True sl ih up by (subst spawn_workers.simps) simp
  qed
qed

lemma spawn_workers_overrun:
  "0 \<le> i \<Longrightarrow> i < s \<Longrightarrow> int (length q) < s * s \<Longrightarrow>
   \<exists>ws'. spawn_workers s q i ws = Inl (SliceBoundsOutOfRange, ws')"
proof (induction s q i ws rule: spawn_workers.induct)
  case (1 s q i ws)
  show ?case
  proof (cases "(i + 1) * s \<le> int (length q)")
    case False
    then have "go_slice q (i * s) ((i + 1) * s) = Inl SliceBoundsOutOfRange"
      by (simp add: go_slice_def)
    with "1.prems" show ?thesis
      by (subst spawn_workers.simps) simp
  next
    case True
    have "0 \<le> i * s" "i * s \<le> (i + 1) * s"
      using "1.prems" by (simp_all add: distrib_right)
    with True obtain xs where sl: "go_slice q (i * s) ((i + 1) * s) = Inr xs"
      by (simp add: go_slice_def)
    have "(i + 1) * s < s * s"
      using True "1.prems"(3) by (rule le_less_trans)
    then have "i + 1 < s"
      using "1.prems" by (simp add: mult_less_cancel_right)
    then obtain ws' where
      "spawn_workers s q (i + 1) (ws @ [xs]) = Inl (SliceBoundsOutOfRange, ws')"
      using "1.IH" [OF "1.prems"(2) sl] "1.prems" by auto
    with sl "1.prems" show ?thesis
      by (subst spawn_workers.simps) simp
  qed
qed

lemma concat_chunks:
  "concat (map (\<lambda>k. take n (drop (k * n) q)) [0..<m]) = take (m * n) q"
proof (induction m)
  case 0
  show ?case by simp
next
  case (Suc m)
  have "take (m * n + n) q = take (m * n) q @ take n (drop (m * n) q)"
    by (rule take_add)
  with Suc show ?case
    by (simp add: add.commute)
qed

text \<open>
  With a positive \<open>numWorkers\<close> the loop of \<open>PCollapseQueue\<close> runs \<open>s\<close> times, not
  \<open>numWorkers\<close> times, where \<open>s\<close> is the quotient of the length by \<open>numWorkers\<close>. When
  \<open>s * s\<close> is at most the length, \<open>s\<close> goroutines are started and together they get the
  first \<open>s * s\<close> operands; otherwise a slice expression runs past the end and panics.
\<close>

lemma PCollapseQueue_square:
  assumes "0 < numWorkers"
    and "s = GetQueueLength c div numWorkers"
    and "s * s \<le> GetQueueLength c"
  shows "\<exists>ws. PCollapseQueue numWorkers c = Inr (c\<lparr>queue := []\<rparr>, ws) \<and>
           length ws = nat s \<and>
           worker_operands ws = take (nat s * nat s) (queue c)"
proof -
  have s0: "0 \<le> s"
    using assms by (simp add: GetQueueLength_def pos_imp_zdiv_nonneg_iff)
  have q: "go_quo (GetQueueLength c) numWorkers = Inr s"
    using assms by (simp add: go_quo_pos GetQueueLength_def)
  have "spawn_workers s (queue c) 0 [] =
      Inr ([] @ map (\<lambda>k. take (nat s) (drop (k * nat s) (queue c))) [nat 0..<nat s])"
    using s0 assms(3) by (intro spawn_workers_slices) (simp_all add: GetQueueLength_def)
  with q show ?thesis
    by (simp add: PCollapseQueue_def Queue_def EmptyQueue_def worker_operands_def
        concat_chunks)
qed

lemma PCollapseQueue_overrun:
  assumes "0 < numWorkers"
    and "s = GetQueueLength c div numWorkers"
    and "GetQueueLength c < s * s"
  shows "\<exists>ws. PCollapseQueue numWorkers c = Inl (SliceBoundsOutOfRange, c\<lparr>queue := []\<rparr>, ws)"
proof -
  have q: "go_quo (GetQueueLength c) numWorkers = Inr s"
    using assms by (simp add: go_quo_pos GetQueueLength_def)
  have "0 < s"
  proof (rule ccontr)
    assume "\<not> 0 < s"
    moreover have "0 \<le> s"
      using assms by (simp add: GetQueueLength_def pos_imp_zdiv_nonneg_iff)
    ultimately have "s = 0" by simp
    with assms(3) show False by (simp add: GetQueueLength_def)
  qed
  then obtain ws where "spawn_workers s (queue c) 0 [] = Inl (SliceBoundsOutOfRange, ws)"
    using spawn_workers_overrun [of 0 s "queue c" "[]"] assms(3)
    by (auto simp: GetQueueLength_def)
  with q show ?thesis
    by (simp add: PCollapseQueue_def Queue_def EmptyQueue_def)
qed

section \<open>The properties\<close>

text \<open>
  C1. Partition completeness of the concurrent drain: for a backlog of \<open>L\<close> operands and
  \<open>0 < numWorkers \<le> L\<close>, every operand is applied exactly once by the workers. The code
  does not do this. On ten operands and three workers the quotient is 3, three goroutines
  get the slices of the first nine operands, and the tenth operand is handed to no
  goroutine, so \<open>COp\<close> is never applied to it.
\<close>

theorem PCollapseQueue_drops_remainder:
  "PCollapseQueue 3 \<lparr>queue = [1, 2, 3, 4, 5, 6, 7, 8, 9, 10 :: nat], applied = []\<rparr> =
     Inr (\<lparr>queue = [], applied = []\<rparr>, [[1, 2, 3], [4, 5, 6], [7, 8, 9]]) \<and>
   worker_operands [[1, 2, 3], [4, 5, 6], [7, 8, 9 :: nat]] = [1, 2, 3, 4, 5, 6, 7, 8, 9] \<and>
   run_workers [[1, 2, 3], [4, 5, 6], [7, 8, 9 :: nat]] \<lparr>queue = [], applied = []\<rparr> =
     \<lparr>queue = [],
      applied = [Operand 1, Operand 2, Operand 3, Operand 4, Operand 5, Operand 6,
                 Operand 7, Operand 8, Operand 9]\<rparr>"
  by (simp add: PCollapseQueue_def GetQueueLength_def go_quo_def Queue_def EmptyQueue_def
      spawn_workers.simps go_slice_def worker_operands_def run_workers_def worker_def COp_def)

text \<open>
  C2. \<open>CollapseQueue\<close> detaches the backlog and applies \<open>COp\<close> to each operand on its
  own, in FIFO order. The code detaches the backlog and empties the queue, but each of its
  calls of \<open>COp\<close> gets the whole detached slice: on the backlog 3, 4, 5 there are three
  calls, each with the argument \<open>[3, 4, 5]\<close>, and none with a single operand.
\<close>

theorem CollapseQueue_batch_calls:
  "CollapseQueue \<lparr>queue = [3, 4, 5 :: nat], applied = []\<rparr> =
     \<lparr>queue = [], applied = [Batch [3, 4, 5], Batch [3, 4, 5], Batch [3, 4, 5]]\<rparr>"
  by (simp add: CollapseQueue_def EmptyQueue_def COp_def)

text \<open>
  C3, as stated: a concurrent operation called with \<open>numWorkers = 0\<close> fails with an
  explicit error and not with a division fault. It fails at \<open>PCollapseQueue 0\<close>: the
  division of the length by \<open>numWorkers\<close> panics.
\<close>

theorem PCollapseQueue_zero_workers_panics:
  "PCollapseQueue 0 \<lparr>queue = [1, 2 :: nat], applied = []\<rparr> =
     Inl (IntegerDivideByZero, \<lparr>queue = [1, 2], applied = []\<rparr>, [])"
  by (simp add: PCollapseQueue_def go_quo_def)

text \<open>
  C3, amended: with \<open>numWorkers \<le> 0\<close> no worker is started and \<open>COp\<close> is not called.
  \<open>PCollapseQueue\<close> with \<open>numWorkers = 0\<close> panics on the integer division, before it
  reads the queue, so the commuter is unchanged; with \<open>numWorkers < 0\<close> it returns with no
  goroutine started and no \<open>COp\<close> call made. \<open>CCompressQueue\<close> leaves the commuter as it
  was, whether it returns or not.
\<close>

theorem nonpositive_workers:
  assumes "numWorkers \<le> 0"
  shows "PCollapseQueue numWorkers c =
           (if numWorkers = 0 then Inl (IntegerDivideByZero, c, [])
            else Inr (c\<lparr>queue := []\<rparr>, [])) \<and>
         (case CCompressQueue desiredLength numWorkers c of
            Inl (e, c') \<Rightarrow> c' = c
          | Inr c' \<Rightarrow> c' = c)"
proof -
  have p: "PCollapseQueue numWorkers c =
           (if numWorkers = 0 then Inl (IntegerDivideByZero, c, [])
            else Inr (c\<lparr>queue := []\<rparr>, []))"
  proof (cases "numWorkers = 0")
    case True
    then show ?thesis by (simp add: PCollapseQueue_def go_quo_def)
  next
    case False
    with assms have "numWorkers < 0" by simp
    then obtain s where s: "go_quo (GetQueueLength c) numWorkers = Inr s" "s \<le> 0"
      using go_quo_nonpos [of "GetQueueLength c" numWorkers]
      by (auto simp: GetQueueLength_def)
    then have "spawn_workers s (queue c) 0 [] = Inr []"
      by (subst spawn_workers.simps) simp
    with s False show ?thesis
      by (simp add: PCollapseQueue_def Queue_def EmptyQueue_def)
  qed
  have "CCompressQueue desiredLength numWorkers c = Inl (NilPointerDereference, c)"
    by (simp add: CCompressQueue_def go_store_def)
  with p show ?thesis by simp
qed

text \<open>C3, amended, at zero and at minus two workers on the queue 1, 2.\<close>

theorem nonpositive_workers_witness:
  "PCollapseQueue 0 \<lparr>queue = [1, 2 :: nat], applied = []\<rparr> =
     Inl (IntegerDivideByZero, \<lparr>queue = [1, 2], applied = []\<rparr>, []) \<and>
   PCollapseQueue (- 2) \<lparr>queue = [1, 2 :: nat], applied = []\<rparr> =
     Inr (\<lparr>queue = [], applied = []\<rparr>, [])"
  using nonpositive_workers [of 0 "\<lparr>queue = [1, 2 :: nat], applied = []\<rparr>" 0]
    nonpositive_workers [of "- 2" "\<lparr>queue = [1, 2 :: nat], applied = []\<rparr>" 0]
  by simp

text \<open>
  C4. \<open>CCompressQueue\<close> with a target at or above the current length is a no-op and does
  not panic. The code panics: the store through the nil pointer \<open>j\<close> comes before anything
  else is done, here on a queue of two operands with the target 5 and two workers.
\<close>

theorem CCompressQueue_nil_pointer:
  "CCompressQueue 5 2 \<lparr>queue = [1, 2 :: nat], applied = []\<rparr> =
     Inl (NilPointerDereference, \<lparr>queue = [1, 2], applied = []\<rparr>)"
  by (simp add: CCompressQueue_def go_store_def)

text \<open>
  C5, as stated: for every target, \<open>CompressQueue\<close> leaves the length at most the target
  when the initial length exceeds it. It fails at the target \<open>-1\<close> on the queue 7: the
  initial length 1 exceeds the target, the loop dequeues 7, finds the length 0 still above
  the target and pops from the empty queue; the final length 0 is not at most \<open>-1\<close>.
\<close>

theorem CompressQueue_negative_target:
  "CompressQueue (- 1) \<lparr>queue = [7 :: nat], applied = []\<rparr> =
     Inl (EmptyQueueError, \<lparr>queue = [], applied = [Operand 7]\<rparr>) \<and>
   GetQueueLength \<lparr>queue = [7 :: nat], applied = []\<rparr> > - 1 \<and>
   \<not> GetQueueLength \<lparr>queue = [] :: nat list, applied = [Operand 7]\<rparr> \<le> - 1"
  by (simp add: CompressQueue.simps QueueLength_def GetQueueLength_def Dequeue_def Pop_def
      COp_def)

text \<open>
  C5, amended: for every target \<open>desiredLength \<ge> 0\<close>, \<open>CompressQueue\<close> returns; when the
  initial length exceeds the target it has dequeued the oldest operands in FIFO order, each
  with one \<open>COp\<close> call, and the final length is the target; otherwise the commuter is
  unchanged.
\<close>

theorem CompressQueue_length_law:
  assumes "0 \<le> desiredLength"
  shows "\<exists>c'. CompressQueue desiredLength c = Inr c' \<and>
           (if GetQueueLength c > desiredLength
            then GetQueueLength c' = desiredLength \<and>
                 queue c' = drop (nat (GetQueueLength c - desiredLength)) (queue c) \<and>
                 applied c' =
                   applied c @
                   map Operand (take (nat (GetQueueLength c - desiredLength)) (queue c))
            else c' = c)"
proof -
  let ?n = "length (queue c) - nat desiredLength"
  let ?c' = "c\<lparr>queue := drop ?n (queue c),
               applied := applied c @ map Operand (take ?n (queue c))\<rparr>"
  have run: "CompressQueue desiredLength c = Inr ?c'"
    using assms by (rule CompressQueue_drain)
  have n: "?n = nat (GetQueueLength c - desiredLength)"
    using assms by (simp add: GetQueueLength_def nat_diff_distrib)
  show ?thesis
  proof (cases "GetQueueLength c > desiredLength")
    case True
    then have "GetQueueLength ?c' = desiredLength"
      using assms by (simp add: GetQueueLength_def)
    with True run n show ?thesis by simp
  next
    case False
    then have "?n = 0"
      using assms by (simp add: GetQueueLength_def)
    then have "?c' = c" by simp
    with False run show ?thesis by simp
  qed
qed

text \<open>C5, amended, at the target 1 on the queue 7, 8, 9.\<close>

theorem CompressQueue_length_law_witness:
  "\<exists>c'. CompressQueue 1 \<lparr>queue = [7, 8, 9 :: nat], applied = []\<rparr> = Inr c' \<and>
        GetQueueLength c' = 1 \<and> queue c' = [9] \<and> applied c' = [Operand 7, Operand 8]"
  using CompressQueue_length_law [of 1 "\<lparr>queue = [7, 8, 9 :: nat], applied = []\<rparr>"]
  by (simp add: GetQueueLength_def)

text \<open>
  C6, as stated: for every \<open>numOps\<close> with \<open>L \<ge> 2 * numOps\<close> the length after
  \<open>CompressQueue numOps\<close> is \<open>L - numOps\<close>. It fails at \<open>numOps = -1\<close> on the empty
  queue: the bound \<open>0 \<ge> -2\<close> holds, the loop does not run, and the length stays 0, not 1.
\<close>

theorem CompressQueue_negative_numOps:
  "2 * (- 1) \<le> GetQueueLength (Commuter \<lparr>Commuter = \<lparr>queue = [] :: nat list, applied = []\<rparr>, Commutator = (+)\<rparr>) \<and>
   CommuterWithCommutator_CompressQueue (- 1)
     \<lparr>Commuter = \<lparr>queue = [] :: nat list, applied = []\<rparr>, Commutator = (+)\<rparr> =
     Inr \<lparr>Commuter = \<lparr>queue = [], applied = []\<rparr>, Commutator = (+)\<rparr> \<and>
   GetQueueLength \<lparr>queue = [] :: nat list, applied = []\<rparr> \<noteq>
     GetQueueLength \<lparr>queue = [] :: nat list, applied = []\<rparr> - (- 1)"
  by (simp add: CommuterWithCommutator_CompressQueue_def compress_loop.simps GetQueueLength_def)

text \<open>
  C6, amended: for every \<open>numOps \<ge> 0\<close> with \<open>L \<ge> 2 * numOps\<close>, \<open>CompressQueue numOps\<close>
  returns with the length \<open>L - numOps\<close> and without a \<open>COp\<close> call, and every round
  \<open>k + 1\<close> of it is one run of the loop body on the state that \<open>k\<close> rounds leave,
  which shortens the queue by exactly 1.
\<close>

theorem CompressQueue_shrink_law:
  assumes "0 \<le> numOps" and "2 * numOps \<le> GetQueueLength (Commuter c)"
  shows "(\<exists>c'. CommuterWithCommutator_CompressQueue numOps c = Inr c' \<and>
            GetQueueLength (Commuter c') = GetQueueLength (Commuter c) - numOps \<and>
            applied (Commuter c') = applied (Commuter c)) \<and>
         (\<forall>k. 0 \<le> k \<and> k < numOps \<longrightarrow>
            (\<exists>ck ck'. CommuterWithCommutator_CompressQueue k c = Inr ck \<and>
               compress_round ck = Inr ck' \<and>
               CommuterWithCommutator_CompressQueue (k + 1) c = Inr ck' \<and>
               GetQueueLength (Commuter ck') = GetQueueLength (Commuter ck) - 1))"
proof -
  have after: "\<exists>c'. CommuterWithCommutator_CompressQueue k c = Inr c' \<and>
                 GetQueueLength (Commuter c') = GetQueueLength (Commuter c) - k \<and>
                 applied (Commuter c') = applied (Commuter c)"
    if "0 \<le> k" "k \<le> numOps" for k
  proof -
    have "2 * (k - 0) \<le> int (length (queue (Commuter c)))"
      using that assms by (simp add: GetQueueLength_def)
    from compress_loop_length [OF that(1) this] show ?thesis
      by (auto simp: CommuterWithCommutator_CompressQueue_def GetQueueLength_def)
  qed
  have round: "\<exists>ck ck'. CommuterWithCommutator_CompressQueue k c = Inr ck \<and>
                 compress_round ck = Inr ck' \<and>
                 CommuterWithCommutator_CompressQueue (k + 1) c = Inr ck' \<and>
                 GetQueueLength (Commuter ck') = GetQueueLength (Commuter ck) - 1"
    if k: "0 \<le> k" "k < numOps" for k
  proof -
    from after [of k] k obtain ck where
      ck: "CommuterWithCommutator_CompressQueue k c = Inr ck"
        "GetQueueLength (Commuter ck) = GetQueueLength (Commuter c) - k"
      by auto
    from after [of "k + 1"] k obtain ck' where
      ck': "CommuterWithCommutator_CompressQueue (k + 1) c = Inr ck'"
        "GetQueueLength (Commuter ck') = GetQueueLength (Commuter c) - (k + 1)"
      by auto
    have "compress_loop (k + 1) 0 c = compress_round ck"
      using compress_loop_extend [OF k(1), of c] ck(1)
      by (simp add: CommuterWithCommutator_CompressQueue_def)
    with ck' have "compress_round ck = Inr ck'"
      by (simp add: CommuterWithCommutator_CompressQueue_def)
    with ck ck' show ?thesis by simp
  qed
  from after [of numOps] assms(1) round show ?thesis
    by blast
qed

text \<open>C6, amended, at two rounds on the queue 3, 4, 5, 6 with addition.\<close>

theorem CompressQueue_shrink_law_witness:
  "\<exists>c1 c2. CommuterWithCommutator_CompressQueue 1
       \<lparr>Commuter = \<lparr>queue = [3, 4, 5, 6 :: nat], applied = []\<rparr>, Commutator = (+)\<rparr> = Inr c1 \<and>
     compress_round c1 = Inr c2 \<and>
     CommuterWithCommutator_CompressQueue 2
       \<lparr>Commuter = \<lparr>queue = [3, 4, 5, 6 :: nat], applied = []\<rparr>, Commutator = (+)\<rparr> = Inr c2 \<and>
     GetQueueLength (Commuter c1) = 3 \<and> GetQueueLength (Commuter c2) = 2"
proof -
  let ?c = "\<lparr>Commuter = \<lparr>queue = [3, 4, 5, 6 :: nat], applied = []\<rparr>, Commutator = (+)\<rparr>"
  have h: "(0 :: int) \<le> 2" "2 * 2 \<le> GetQueueLength (Commuter ?c)"
    by (simp_all add: GetQueueLength_def)
  from CompressQueue_shrink_law [OF h] obtain c' where
    c': "CommuterWithCommutator_CompressQueue 2 ?c = Inr c'"
      "GetQueueLength (Commuter c') = GetQueueLength (Commuter ?c) - 2"
    and rounds: "\<forall>k. 0 \<le> k \<and> k < 2 \<longrightarrow>
            (\<exists>ck ck'. CommuterWithCommutator_CompressQueue k ?c = Inr ck \<and>
               compress_round ck = Inr ck' \<and>
               CommuterWithCommutator_CompressQueue (k + 1) ?c = Inr ck' \<and>
               GetQueueLength (Commuter ck') = GetQueueLength (Commuter ck) - 1)"
    by blast
  from rounds [rule_format, of 1] obtain c1 c2 where
    "CommuterWithCommutator_CompressQueue 1 ?c = Inr c1"
    "compress_round c1 = Inr c2"
    "CommuterWithCommutator_CompressQueue 2 ?c = Inr c2"
    "GetQueueLength (Commuter c2) = GetQueueLength (Commuter c1) - 1"
    by auto
  with c' show ?thesis
    by (auto simp: GetQueueLength_def)
qed

text \<open>
  C8. \<open>AggregateOp i\<close> appends \<open>i\<close> to the tail of the queue: the length grows by 1, the
  operands queued before are unchanged, and no \<open>COp\<close> call is made.
\<close>

theorem AggregateOp_appends:
  "AggregateOp i c = c\<lparr>queue := queue c @ [i]\<rparr> \<and>
   GetQueueLength (AggregateOp i c) = GetQueueLength c + 1 \<and>
   take (length (queue c)) (queue (AggregateOp i c)) = queue c \<and>
   last (queue (AggregateOp i c)) = i \<and>
   applied (AggregateOp i c) = applied c"
  by (simp add: AggregateOp_def Enqueue_def Push_def GetQueueLength_def)

text \<open>
  C9. On a queue of at least two operands a round of \<open>CompressQueue\<close> of a
  \<open>CommuterWithCommutator\<close> removes the two oldest operands and appends the value of the
  commutator on them, the oldest operand as its first argument and the second oldest as its
  second; no \<open>COp\<close> call is made. \<open>CompressQueue 1\<close> is one such round.
\<close>

theorem compress_round_fifo:
  assumes "2 \<le> length (queue (Commuter c))"
  shows "compress_round c =
           Inr (c\<lparr>Commuter := (Commuter c)
                   \<lparr>queue := drop 2 (queue (Commuter c)) @
                      [Commutator c (queue (Commuter c) ! 0) (queue (Commuter c) ! 1)]\<rparr>\<rparr>) \<and>
         CommuterWithCommutator_CompressQueue 1 c = compress_round c \<and>
         (\<exists>c'. compress_round c = Inr c' \<and> applied (Commuter c') = applied (Commuter c))"
proof -
  from assms obtain i1 i2 rest where q: "queue (Commuter c) = i1 # i2 # rest"
    by (cases "queue (Commuter c)"; cases "tl (queue (Commuter c))") auto
  have r: "compress_round c =
      Inr (c\<lparr>Commuter := (Commuter c)\<lparr>queue := rest @ [Commutator c i1 i2]\<rparr>\<rparr>)"
    using q by (rule compress_round_two)
  have one: "CommuterWithCommutator_CompressQueue 1 c = compress_round c"
    by (simp add: CommuterWithCommutator_CompressQueue_def compress_loop.simps [of 1 0 c]
        compress_loop.simps [of 1 1] split: sum.splits)
  show ?thesis
    using q r one by simp
qed

text \<open>
  C9 on the queue 3, 4, 5, 6 with subtraction, which tells the order of the arguments.
\<close>

theorem compress_round_fifo_witness:
  "compress_round \<lparr>Commuter = \<lparr>queue = [3, 4, 5, 6 :: int], applied = []\<rparr>, Commutator = (-)\<rparr> =
     Inr \<lparr>Commuter = \<lparr>queue = [5, 6, - 1], applied = []\<rparr>, Commutator = (-)\<rparr>"
  using compress_round_fifo
    [of "\<lparr>Commuter = \<lparr>queue = [3, 4, 5, 6 :: int], applied = []\<rparr>, Commutator = (-)\<rparr>"]
  by simp

text \<open>
  C10. For every \<open>desiredLength \<ge> 0\<close> the sequential \<open>CompressQueue\<close> calls
  \<open>Dequeue\<close> only on a queue longer than the target, hence not empty: the \<open>Dequeue\<close> of
  an iteration succeeds, the whole loop returns, and no \<open>Pop\<close> on an empty queue occurs.
\<close>

theorem CompressQueue_never_pops_empty:
  assumes "0 \<le> desiredLength"
  shows "(\<exists>c'. CompressQueue desiredLength c = Inr c') \<and>
         (\<forall>s. CompressQueue desiredLength c \<noteq> Inl (EmptyQueueError, s)) \<and>
         (if QueueLength c > desiredLength then \<exists>c'. Dequeue c = Inr c'
          else CompressQueue desiredLength c = Inr c)"
proof -
  have run: "\<exists>c'. CompressQueue desiredLength c = Inr c'"
    using CompressQueue_drain [OF assms, of c] by blast
  have "\<exists>c'. Dequeue c = Inr c'" if "QueueLength c > desiredLength"
  proof -
    from that assms have "queue c \<noteq> []"
      by (auto simp: QueueLength_def GetQueueLength_def)
    then obtain i q where "queue c = i # q"
      by (cases "queue c") auto
    then show ?thesis
      by (simp add: Dequeue_Cons)
  qed
  moreover have "CompressQueue desiredLength c = Inr c" if "\<not> QueueLength c > desiredLength"
    using that by (subst CompressQueue.simps) simp
  ultimately show ?thesis
    using run by auto
qed

text \<open>C10 at the target 1 on the queue 7, 8.\<close>

theorem CompressQueue_never_pops_empty_witness:
  "(\<exists>c'. CompressQueue 1 \<lparr>queue = [7, 8 :: nat], applied = []\<rparr> = Inr c') \<and>
   (\<exists>c'. Dequeue \<lparr>queue = [7, 8 :: nat], applied = []\<rparr> = Inr c')"
  using CompressQueue_never_pops_empty [of 1 "\<lparr>queue = [7, 8 :: nat], applied = []\<rparr>"]
  by (simp add: QueueLength_def GetQueueLength_def)

end
